theory Spec2Isabelle
  imports Complex_Main
begin

section \<open>One-dimensional table interpolation (include/openmc/interpolate.h)\<close>

text \<open>
  The header defines four two-point kernels, a Lagrangian evaluator over a window of
  table points, and the dispatcher \<open>interpolate\<close> that selects among them.

  Conventions of the embedding:
  \<^item> a C++ \<open>double\<close> is a \<open>real\<close>: rounding is not modelled. An operation whose IEEE
    result is an infinity or a NaN (a division by zero, the logarithm of a number that
    is not positive) ends the run with \<open>NonFinite\<close>; the model does not follow IEEE
    arithmetic on non-finite values any further;
  \<^item> a \<open>std::vector<double>\<close> is a \<open>real list\<close>; a read \<open>v[i]\<close> outside
    \<open>[0, v.size())\<close> is undefined behaviour in C++ and ends the run with
    \<open>OutOfBounds\<close>;
  \<^item> a C++ \<open>int\<close> is an \<open>int\<close>; the conversions that can leave the 32-bit range
    (\<open>double\<close> to \<open>int\<close>, the narrowing of the bracket index) and the comparison
    with the unsigned 64-bit \<open>xs.size()\<close> are written out;
  \<^item> \<open>fatal_error\<close> ends the run with \<open>Fatal\<close> and its message.
\<close>

subsection \<open>Outcomes\<close>

datatype error = Fatal string | OutOfBounds | IntOverflow | NonFinite

definition bind_r :: "error + 'a \<Rightarrow> ('a \<Rightarrow> error + 'b) \<Rightarrow> error + 'b" where
  "bind_r m f = (case m of Inl e \<Rightarrow> Inl e | Inr v \<Rightarrow> f v)"

text \<open>
  Modelled from the spec: \<open>fatal_error\<close> is defined outside interpolate.h. The spec has
  the unsupported-law error fatal for the calling operation: the call does not return,
  and the run ends with the message.
\<close>

definition fatal_error :: "string \<Rightarrow> error + 'a" where
  "fatal_error msg = Inl (Fatal msg)"

text \<open>\<open>a / b\<close> on doubles: finite only when the divisor is not zero.\<close>

definition fdiv :: "real \<Rightarrow> real \<Rightarrow> error + real" where
  "fdiv a b = (if b = 0 then Inl NonFinite else Inr (a / b))"

text \<open>\<open>log(a)\<close> from cmath: finite only when the argument is positive.\<close>

definition flog :: "real \<Rightarrow> error + real" where
  "flog a = (if a \<le> 0 then Inl NonFinite else Inr (ln a))"

text \<open>\<open>v[i]\<close> on a vector, with an \<open>int\<close> index.\<close>

definition at_v :: "real list \<Rightarrow> int \<Rightarrow> error + real" where
  "at_v v i = (if 0 \<le> i \<and> i < int (length v) then Inr (v ! nat i) else Inl OutOfBounds)"

text \<open>
  The implicit conversion of a \<open>double\<close> to \<open>int\<close>: the fractional part is discarded
  (truncation toward zero); the behaviour is undefined when the truncated value does
  not fit the 32-bit \<open>int\<close>.
\<close>

definition trunc_to_zero :: "real \<Rightarrow> int" where
  "trunc_to_zero x = (if 0 \<le> x then \<lfloor>x\<rfloor> else \<lceil>x\<rceil>)"

definition double_to_int :: "real \<Rightarrow> error + int" where
  "double_to_int x =
     (let t = trunc_to_zero x
      in if - (2 ^ 31) \<le> t \<and> t < 2 ^ 31 then Inr t else Inl IntOverflow)"

text \<open>Storing a wider integer in an \<open>int\<close>: the value modulo \<open>2^32\<close>, read as signed.\<close>

definition narrow_int :: "int \<Rightarrow> int" where
  "narrow_int k = (k + 2 ^ 31) mod 2 ^ 32 - 2 ^ 31"

text \<open>
  The comparison \<open>idx == xs.size() - k\<close>: \<open>xs.size()\<close> is an unsigned 64-bit value, so
  the subtraction wraps and the \<open>int\<close> on the left is converted to unsigned 64 bits
  before the comparison. \<open>n\<close> is \<open>xs.size()\<close>.
\<close>

definition eq_size_minus :: "int \<Rightarrow> nat \<Rightarrow> nat \<Rightarrow> bool" where
  "eq_size_minus idx n k \<longleftrightarrow> idx mod 2 ^ 64 = (int n - int k) mod 2 ^ 64"

subsection \<open>The interpolation laws and the interval locator\<close>

text \<open>
  Modelled from the spec: the enumeration \<open>Interpolation\<close> is declared outside
  interpolate.h. The spec lists six laws (LinLin, LinLog, LogLin, LogLog, Quadratic,
  Cubic); the constructors carry the names the header uses for them. An object of a
  C++ enumeration type can hold a value of the underlying type that is none of the
  enumerators: \<open>other_law\<close> stands for every such value.
\<close>

datatype Interpolation =
  lin_lin | lin_log | log_lin | log_log | quadratic | cubic | other_law int

text \<open>
  Modelled from the spec: \<open>lower_bound_index\<close> is defined in openmc/search.h, outside
  interpolate.h. The spec (IntervalLocator) gives its contract on a sorted sequence of
  length \<open>n\<close>: the index \<open>idx\<close> with \<open>xs[idx] \<le> x\<close> and, when possible,
  \<open>x < xs[idx+1]\<close>, clamped to \<open>0 \<le> idx \<le> n-2\<close>; \<open>n-2\<close> for a query at or beyond the
  last grid point, \<open>0\<close> for a query below the first. The scan below moves right while
  the query has reached the next grid point and a further interval remains.
\<close>

fun lower_bound_index :: "real list \<Rightarrow> real \<Rightarrow> int" where
  "lower_bound_index (a # b # c # rest) x =
     (if x < b then 0 else 1 + lower_bound_index (b # c # rest) x)"
| "lower_bound_index _ x = 0"

subsection \<open>Pointwise kernels\<close>

definition interpolate_lin_lin :: "real \<Rightarrow> real \<Rightarrow> real \<Rightarrow> real \<Rightarrow> real \<Rightarrow> error + real" where
  "interpolate_lin_lin x0 x1 y0 y1 x =
     bind_r (fdiv (x - x0) (x1 - x0)) (\<lambda>q. Inr (y0 + q * (y1 - y0)))"

definition interpolate_lin_log :: "real \<Rightarrow> real \<Rightarrow> real \<Rightarrow> real \<Rightarrow> real \<Rightarrow> error + real" where
  "interpolate_lin_log x0 x1 y0 y1 x =
     bind_r (fdiv x x0) (\<lambda>a. bind_r (flog a) (\<lambda>la.
     bind_r (fdiv x1 x0) (\<lambda>b. bind_r (flog b) (\<lambda>lb.
     bind_r (fdiv la lb) (\<lambda>q. Inr (y0 + q * (y1 - y0)))))))"

definition interpolate_log_lin :: "real \<Rightarrow> real \<Rightarrow> real \<Rightarrow> real \<Rightarrow> real \<Rightarrow> error + real" where
  "interpolate_log_lin x0 x1 y0 y1 x =
     bind_r (fdiv (x - x0) (x1 - x0)) (\<lambda>q.
     bind_r (fdiv y1 y0) (\<lambda>r. bind_r (flog r) (\<lambda>lr.
       Inr (y0 * exp (q * lr)))))"

definition interpolate_log_log :: "real \<Rightarrow> real \<Rightarrow> real \<Rightarrow> real \<Rightarrow> real \<Rightarrow> error + real" where
  "interpolate_log_log x0 x1 y0 y1 x =
     bind_r (fdiv x x0) (\<lambda>a. bind_r (flog a) (\<lambda>la.
     bind_r (fdiv x1 x0) (\<lambda>b. bind_r (flog b) (\<lambda>lb.
     bind_r (fdiv la lb) (\<lambda>f.
     bind_r (fdiv y1 y0) (\<lambda>r. bind_r (flog r) (\<lambda>lr.
       Inr (y0 * exp (f * lr)))))))))"

subsection \<open>The Lagrangian evaluator\<close>

text \<open>
  The inner loop \<open>for (int j = 0; j < order; j++)\<close> of \<open>interpolate_lagrangian\<close>, for
  the window position \<open>i\<close>: it skips \<open>j = i\<close> and multiplies the factors into
  \<open>numerator\<close> and \<open>denominator\<close>. Its bound is \<open>j < order\<close>, as the source has it.
\<close>

function lagrangian_inner ::
  "real list \<Rightarrow> int \<Rightarrow> real \<Rightarrow> int \<Rightarrow> int \<Rightarrow> int \<Rightarrow> real \<Rightarrow> real \<Rightarrow> error + real \<times> real" where
  "lagrangian_inner xs idx x order i j numerator denominator =
     (if j < order then
        (if i = j then lagrangian_inner xs idx x order i (j + 1) numerator denominator
         else (case at_v xs (idx + j) of Inl e \<Rightarrow> Inl e | Inr xj \<Rightarrow>
               (case at_v xs (idx + i) of Inl e \<Rightarrow> Inl e | Inr xi \<Rightarrow>
                  lagrangian_inner xs idx x order i (j + 1)
                    (numerator * (x - xj)) (denominator * (xi - xj)))))
      else Inr (numerator, denominator))"
  by pat_completeness auto
termination
  by (relation "measure (\<lambda>(xs, idx, x, order, i, j, n, d). nat (order - j))") auto

declare lagrangian_inner.simps [simp del]

text \<open>
  The outer loop \<open>for (int i = 0; i < order + 1; i++)\<close>: one coefficient
  \<open>numerator / denominator\<close> is pushed to \<open>coeffs\<close> for each window position.
\<close>

function lagrangian_coeffs ::
  "real list \<Rightarrow> int \<Rightarrow> real \<Rightarrow> int \<Rightarrow> int \<Rightarrow> real list \<Rightarrow> error + real list" where
  "lagrangian_coeffs xs idx x order i coeffs =
     (if i < order + 1 then
        (case lagrangian_inner xs idx x order i 0 1 1 of Inl e \<Rightarrow> Inl e
         | Inr (numerator, denominator) \<Rightarrow>
           (case fdiv numerator denominator of Inl e \<Rightarrow> Inl e
            | Inr c \<Rightarrow> lagrangian_coeffs xs idx x order (i + 1) (coeffs @ [c])))
      else Inr coeffs)"
  by pat_completeness auto
termination
  by (relation "measure (\<lambda>(xs, idx, x, order, i, coeffs). nat (order + 1 - i))") auto

declare lagrangian_coeffs.simps [simp del]

text \<open>
  \<open>std::inner_product(coeffs.begin(), coeffs.end(), ys.begin() + idx, 0.0)\<close>: the
  accumulator starts at \<open>0.0\<close> and takes \<open>acc + c * ys[k]\<close> for each coefficient in turn,
  \<open>k\<close> starting at \<open>idx\<close>.
\<close>

fun inner_product :: "real list \<Rightarrow> real list \<Rightarrow> int \<Rightarrow> real \<Rightarrow> error + real" where
  "inner_product [] ys k acc = Inr acc"
| "inner_product (c # cs) ys k acc =
     (case at_v ys k of Inl e \<Rightarrow> Inl e
      | Inr y \<Rightarrow> inner_product cs ys (k + 1) (acc + c * y))"

text \<open>
  \<open>interpolate_lagrangian(xs, ys, idx, x, order)\<close>. Forming the iterator
  \<open>ys.begin() + idx\<close> is itself undefined outside \<open>[0, ys.size()]\<close>.
\<close>

definition interpolate_lagrangian ::
  "real list \<Rightarrow> real list \<Rightarrow> int \<Rightarrow> real \<Rightarrow> int \<Rightarrow> error + real" where
  "interpolate_lagrangian xs ys idx x order =
     bind_r (lagrangian_coeffs xs idx x order 0 []) (\<lambda>coeffs.
       if 0 \<le> idx \<and> idx \<le> int (length ys) then inner_product coeffs ys idx 0
       else Inl OutOfBounds)"

subsection \<open>The dispatcher\<close>

text \<open>
  The four reads \<open>xs[idx], xs[idx + 1], ys[idx], ys[idx + 1]\<close> that every pointwise
  branch of \<open>interpolate\<close> passes to its kernel.
\<close>

definition bracket ::
  "real list \<Rightarrow> real list \<Rightarrow> int \<Rightarrow> (real \<Rightarrow> real \<Rightarrow> real \<Rightarrow> real \<Rightarrow> error + real) \<Rightarrow> error + real" where
  "bracket xs ys idx two_point =
     bind_r (at_v xs idx) (\<lambda>x0. bind_r (at_v xs (idx + 1)) (\<lambda>x1.
     bind_r (at_v ys idx) (\<lambda>y0. bind_r (at_v ys (idx + 1)) (\<lambda>y1.
       two_point x0 x1 y0 y1))))"

text \<open>
  The stencil shift of the quadratic branch,
  \<open>if (idx == xs.size() - 2 && idx > 0) idx--;\<close>, with \<open>n = xs.size()\<close>.
\<close>

definition quadratic_start :: "nat \<Rightarrow> int \<Rightarrow> int" where
  "quadratic_start n idx = (if eq_size_minus idx n 2 \<and> idx > 0 then idx - 1 else idx)"

text \<open>
  The stencil shift of the cubic branch,
  \<open>if (idx > 0) idx--; if (idx == xs.size() - 3) idx--;\<close>, with \<open>n = xs.size()\<close>.
\<close>

definition cubic_start :: "nat \<Rightarrow> int \<Rightarrow> int" where
  "cubic_start n idx =
     (let idx1 = (if idx > 0 then idx - 1 else idx)
      in if eq_size_minus idx1 n 3 then idx1 - 1 else idx1)"

text \<open>
  \<open>interpolate(xs, ys, x, i)\<close>; the law \<open>i\<close> defaults to \<open>lin_lin\<close> in the source, and
  the \<open>default\<close> branch of the switch is reached by every value that is no enumerator.
  The quadratic and cubic branches call
  \<open>interpolate_lagrangian(xs, ys, x, idx, order)\<close>: the third parameter of the callee is
  the \<open>int idx\<close> and the fourth the \<open>double x\<close>, so the query \<open>x\<close> is converted to
  \<open>int\<close> and the shifted index to \<open>double\<close>.
\<close>

definition interpolate :: "real list \<Rightarrow> real list \<Rightarrow> real \<Rightarrow> Interpolation \<Rightarrow> error + real" where
  "interpolate xs ys x i =
     (let idx = narrow_int (lower_bound_index xs x) in
      case i of
        lin_lin \<Rightarrow> bracket xs ys idx (\<lambda>x0 x1 y0 y1. interpolate_lin_lin x0 x1 y0 y1 x)
      | log_log \<Rightarrow> bracket xs ys idx (\<lambda>x0 x1 y0 y1. interpolate_log_log x0 x1 y0 y1 x)
      | lin_log \<Rightarrow> bracket xs ys idx (\<lambda>x0 x1 y0 y1. interpolate_lin_log x0 x1 y0 y1 x)
      | log_lin \<Rightarrow> bracket xs ys idx (\<lambda>x0 x1 y0 y1. interpolate_log_lin x0 x1 y0 y1 x)
      | quadratic \<Rightarrow>
          bind_r (double_to_int x) (\<lambda>k.
            interpolate_lagrangian xs ys k (of_int (quadratic_start (length xs) idx)) 2)
      | cubic \<Rightarrow>
          bind_r (double_to_int x) (\<lambda>k.
            interpolate_lagrangian xs ys k (of_int (cubic_start (length xs) idx)) 3)
      | other_law v \<Rightarrow> fatal_error ''Unsupported interpolation'')"

subsection \<open>The Lagrange formula of the spec\<close>

text \<open>
  The spec gives the evaluator as a formula: for each window position \<open>i\<close> in
  \<open>0..order\<close> the basis coefficient is the product over \<open>j \<noteq> i\<close> (\<open>j\<close> in \<open>0..order\<close>) of
  \<open>(x - xs[idx+j]) / (xs[idx+i] - xs[idx+j])\<close>, and the result is the sum of
  \<open>c_i * ys[idx+i]\<close>. These two definitions follow the spec's words, not the source;
  they are what \<open>interpolate_lagrangian\<close> is compared with.
\<close>

definition spec_basis_coefficient :: "real list \<Rightarrow> nat \<Rightarrow> real \<Rightarrow> nat \<Rightarrow> nat \<Rightarrow> real" where
  "spec_basis_coefficient xs idx x order i =
     (\<Prod>j\<leftarrow>filter (\<lambda>j. j \<noteq> i) [0..<order + 1].
        (x - xs ! (idx + j)) / (xs ! (idx + i) - xs ! (idx + j)))"

definition spec_lagrangian :: "real list \<Rightarrow> real list \<Rightarrow> nat \<Rightarrow> real \<Rightarrow> nat \<Rightarrow> real" where
  "spec_lagrangian xs ys idx x order =
     (\<Sum>i\<leftarrow>[0..<order + 1]. spec_basis_coefficient xs idx x order i * ys ! (idx + i))"

section \<open>Basic facts\<close>

lemma bind_r_Inl [simp]: "bind_r (Inl e) f = Inl e"
  by (simp add: bind_r_def)

lemma bind_r_Inr [simp]: "bind_r (Inr v) f = f v"
  by (simp add: bind_r_def)

text \<open>The equations that run the model on a concrete table.\<close>

lemmas run_simps =
  interpolate_def bracket_def fdiv_def flog_def at_v_def double_to_int_def trunc_to_zero_def
  narrow_int_def eq_size_minus_def quadratic_start_def cubic_start_def
  interpolate_lagrangian_def lagrangian_coeffs.simps lagrangian_inner.simps

text \<open>
  The locator of the spec stays inside \<open>[0, n-2]\<close> (and returns \<open>0\<close> on a table too
  short to have an interval).
\<close>

lemma lower_bound_index_range:
  "0 \<le> lower_bound_index xs x \<and> lower_bound_index xs x \<le> max 0 (int (length xs) - 2)"
  by (induction xs x rule: lower_bound_index.induct) auto

lemma narrow_int_id: "- (2 ^ 31) \<le> k \<Longrightarrow> k < 2 ^ 31 \<Longrightarrow> narrow_int k = k"
  by (simp add: narrow_int_def)

text \<open>
  On a sorted table with at least one interval the scan meets the contract the spec
  gives for the locator: the index is in \<open>[0, n-2]\<close>; the left end of its bracket is at
  most the query unless the query is below the table; the right end is above the query
  unless the query is at or beyond the last grid point, where the index is \<open>n-2\<close>; and
  the index is \<open>0\<close> for a query below the first grid point.
\<close>

lemma lower_bound_index_contract:
  assumes "sorted xs" "2 \<le> length xs"
  shows "0 \<le> lower_bound_index xs x \<and> lower_bound_index xs x \<le> int (length xs) - 2 \<and>
         (xs ! 0 \<le> x \<longrightarrow> xs ! nat (lower_bound_index xs x) \<le> x) \<and>
         (x < last xs \<longrightarrow> x < xs ! (nat (lower_bound_index xs x) + 1)) \<and>
         (last xs \<le> x \<longrightarrow> lower_bound_index xs x = int (length xs) - 2) \<and>
         (x < xs ! 0 \<longrightarrow> lower_bound_index xs x = 0)"
  using assms
proof (induction xs x rule: lower_bound_index.induct)
  case (1 a b c rest x)
  show ?case
  proof (cases "x < b")
    case True
    moreover have "b \<le> last (a # b # c # rest)"
      using "1.prems"(1) by auto
    ultimately show ?thesis
      by auto
  next
    case False
    define r where "r = lower_bound_index (b # c # rest) x"
    have ih: "0 \<le> r \<and> r \<le> int (length (b # c # rest)) - 2 \<and>
         ((b # c # rest) ! 0 \<le> x \<longrightarrow> (b # c # rest) ! nat r \<le> x) \<and>
         (x < last (b # c # rest) \<longrightarrow> x < (b # c # rest) ! (nat r + 1)) \<and>
         (last (b # c # rest) \<le> x \<longrightarrow> r = int (length (b # c # rest)) - 2) \<and>
         (x < (b # c # rest) ! 0 \<longrightarrow> r = 0)"
      unfolding r_def using "1.IH" [OF False] "1.prems" by simp
    have e: "lower_bound_index (a # b # c # rest) x = 1 + r"
      using False by (simp add: r_def)
    have "0 \<le> r"
      using ih by blast
    then have n: "nat (1 + r) = Suc (nat r)"
      by simp
    have ab: "a \<le> b"
      using "1.prems"(1) by simp
    show ?thesis
      unfolding e n using ih False ab by auto
  qed
qed auto

text \<open>At a grid point that starts an interval the bracket is that interval.\<close>

lemma lower_bound_index_grid:
  "sorted_wrt (<) xs \<Longrightarrow> k + 1 < length xs \<Longrightarrow> x = xs ! k \<Longrightarrow> lower_bound_index xs x = int k"
proof (induction xs x arbitrary: k rule: lower_bound_index.induct)
  case (1 a b c rest x)
  show ?case
  proof (cases k)
    case 0
    then show ?thesis
      using "1.prems" by simp
  next
    case (Suc m)
    have "m < length (b # c # rest)"
      using "1.prems"(2) Suc by simp
    then have "(b # c # rest) ! m \<in> set (b # c # rest)"
      by (rule nth_mem)
    then have "b \<le> (b # c # rest) ! m"
      using "1.prems"(1) by auto
    then have nb: "\<not> x < b"
      using "1.prems"(3) Suc by simp
    have "lower_bound_index (b # c # rest) x = int m"
      using "1.IH" [OF nb, of m] "1.prems" Suc by simp
    then show ?thesis
      using nb Suc by simp
  qed
qed auto

text \<open>
  On a size that fits 64 bits and an index inside the table, the mixed comparison is
  the comparison of the mathematical values.
\<close>

lemma eq_size_minus_iff:
  assumes "n < 2 ^ 64" "k \<le> n" "0 \<le> idx" "idx \<le> int n"
  shows "eq_size_minus idx n k \<longleftrightarrow> idx = int n - int k"
proof -
  have "int n < 2 ^ 64"
    using assms(1) by (metis of_nat_less_numeral_power_cancel_iff)
  then have "idx mod 2 ^ 64 = idx" "(int n - int k) mod 2 ^ 64 = int n - int k"
    using assms by simp_all
  then show ?thesis
    by (simp add: eq_size_minus_def)
qed

section \<open>The pointwise kernels\<close>

text \<open>
  C8. Each of the four pointwise kernels returns its closed form on the bracket
  endpoints and the query: LinLin \<open>y0 + (x-x0)/(x1-x0) * (y1-y0)\<close> when \<open>x0 \<noteq> x1\<close>;
  LinLog \<open>y0 + ln(x/x0)/ln(x1/x0) * (y1-y0)\<close> when \<open>x0, x1, x\<close> are positive and
  \<open>x0 \<noteq> x1\<close>; LogLin \<open>y0 * exp((x-x0)/(x1-x0) * ln(y1/y0))\<close> when \<open>y0, y1\<close> are positive
  and \<open>x0 \<noteq> x1\<close>; LogLog \<open>y0 * exp(ln(x/x0)/ln(x1/x0) * ln(y1/y0))\<close> when all five
  operands are positive and \<open>x0 \<noteq> x1\<close>. Under these preconditions no division by zero
  and no logarithm outside its domain occurs, so the result is a number.
\<close>

theorem pointwise_kernels_closed_form:
  "(x0 \<noteq> x1 \<longrightarrow>
      interpolate_lin_lin x0 x1 y0 y1 x = Inr (y0 + (x - x0) / (x1 - x0) * (y1 - y0))) \<and>
   (0 < x0 \<and> 0 < x1 \<and> 0 < x \<and> x0 \<noteq> x1 \<longrightarrow>
      interpolate_lin_log x0 x1 y0 y1 x = Inr (y0 + ln (x / x0) / ln (x1 / x0) * (y1 - y0))) \<and>
   (0 < y0 \<and> 0 < y1 \<and> x0 \<noteq> x1 \<longrightarrow>
      interpolate_log_lin x0 x1 y0 y1 x = Inr (y0 * exp ((x - x0) / (x1 - x0) * ln (y1 / y0)))) \<and>
   (0 < x0 \<and> 0 < x1 \<and> 0 < x \<and> 0 < y0 \<and> 0 < y1 \<and> x0 \<noteq> x1 \<longrightarrow>
      interpolate_log_log x0 x1 y0 y1 x =
        Inr (y0 * exp (ln (x / x0) / ln (x1 / x0) * ln (y1 / y0))))"
proof (intro conjI impI)
  assume "x0 \<noteq> x1"
  then show "interpolate_lin_lin x0 x1 y0 y1 x = Inr (y0 + (x - x0) / (x1 - x0) * (y1 - y0))"
    by (simp add: interpolate_lin_lin_def fdiv_def)
next
  assume "0 < x0 \<and> 0 < x1 \<and> 0 < x \<and> x0 \<noteq> x1"
  then have "0 < x / x0" "0 < x1 / x0" "ln (x1 / x0) \<noteq> 0" "x0 \<noteq> 0"
    by simp_all
  then show "interpolate_lin_log x0 x1 y0 y1 x =
      Inr (y0 + ln (x / x0) / ln (x1 / x0) * (y1 - y0))"
    by (simp add: interpolate_lin_log_def fdiv_def flog_def not_le [symmetric])
next
  assume "0 < y0 \<and> 0 < y1 \<and> x0 \<noteq> x1"
  then have "0 < y1 / y0" "y0 \<noteq> 0" "x1 - x0 \<noteq> 0"
    by simp_all
  then show "interpolate_log_lin x0 x1 y0 y1 x =
      Inr (y0 * exp ((x - x0) / (x1 - x0) * ln (y1 / y0)))"
    by (simp add: interpolate_log_lin_def fdiv_def flog_def not_le [symmetric])
next
  assume "0 < x0 \<and> 0 < x1 \<and> 0 < x \<and> 0 < y0 \<and> 0 < y1 \<and> x0 \<noteq> x1"
  then have "0 < x / x0" "0 < x1 / x0" "ln (x1 / x0) \<noteq> 0" "x0 \<noteq> 0"
    "0 < y1 / y0" "y0 \<noteq> 0"
    by simp_all
  then show "interpolate_log_log x0 x1 y0 y1 x =
      Inr (y0 * exp (ln (x / x0) / ln (x1 / x0) * ln (y1 / y0)))"
    by (simp add: interpolate_log_log_def fdiv_def flog_def not_le [symmetric])
qed

text \<open>The bracket \<open>(1, 2)\<close> with values \<open>(1, 4)\<close> and the query \<open>3/2\<close> meets all four preconditions.\<close>

theorem pointwise_kernels_closed_form_witness:
  "interpolate_lin_lin 1 2 1 4 (3 / 2) = Inr (1 + (3 / 2 - 1) / (2 - 1) * (4 - 1)) \<and>
   interpolate_lin_log 1 2 1 4 (3 / 2) = Inr (1 + ln (3 / 2 / 1) / ln (2 / 1) * (4 - 1)) \<and>
   interpolate_log_lin 1 2 1 4 (3 / 2) = Inr (1 * exp ((3 / 2 - 1) / (2 - 1) * ln (4 / 1))) \<and>
   interpolate_log_log 1 2 1 4 (3 / 2) = Inr (1 * exp (ln (3 / 2 / 1) / ln (2 / 1) * ln (4 / 1)))"
  using pointwise_kernels_closed_form [of 1 2 1 4 "3 / 2"] by simp

section \<open>The stencil shift of the dispatcher\<close>

text \<open>
  C4. For every table length \<open>n\<close> that meets the law's minimum (\<open>n \<ge> 3\<close> for Quadratic,
  \<open>n \<ge> 4\<close> for Cubic) and every bracket index \<open>idx\<close> in \<open>[0, n-2]\<close>, the stencil start
  computed by the dispatcher's shift logic for that law lies in \<open>[0, n-1-order]\<close>: the
  window of \<open>order+1\<close> points is inside the table. (\<open>n\<close> is a \<open>size_t\<close>, below \<open>2^64\<close>.)
\<close>

theorem stencil_containment:
  assumes "n < 2 ^ 64" "0 \<le> idx" "idx \<le> int n - 2"
  shows "(3 \<le> n \<longrightarrow> 0 \<le> quadratic_start n idx \<and> quadratic_start n idx \<le> int n - 1 - 2) \<and>
         (4 \<le> n \<longrightarrow> 0 \<le> cubic_start n idx \<and> cubic_start n idx \<le> int n - 1 - 3)"
proof (intro conjI impI)
  assume n: "3 \<le> n"
  have e: "eq_size_minus idx n 2 \<longleftrightarrow> idx = int n - 2"
    using eq_size_minus_iff [of n 2 idx] assms n by simp
  show "0 \<le> quadratic_start n idx"
    using assms by (simp add: quadratic_start_def)
  show "quadratic_start n idx \<le> int n - 1 - 2"
    using assms n e by (auto simp: quadratic_start_def)
next
  assume n: "4 \<le> n"
  define idx1 where "idx1 = (if idx > 0 then idx - 1 else idx)"
  have r: "0 \<le> idx1" "idx1 \<le> int n - 3"
    using assms n by (auto simp: idx1_def)
  have e: "eq_size_minus idx1 n 3 \<longleftrightarrow> idx1 = int n - 3"
    using eq_size_minus_iff [of n 3 idx1] assms(1) n r by simp
  have c: "cubic_start n idx = (if idx1 = int n - 3 then idx1 - 1 else idx1)"
    by (simp add: cubic_start_def idx1_def Let_def e [unfolded idx1_def])
  show "0 \<le> cubic_start n idx"
    using r n by (simp add: c)
  show "cubic_start n idx \<le> int n - 1 - 3"
    using r by (simp add: c)
qed

text \<open>A table of four points and the last bracket, \<open>idx = 2\<close>.\<close>

theorem stencil_containment_witness:
  "0 \<le> quadratic_start 4 2 \<and> quadratic_start 4 2 \<le> 1 \<and>
   0 \<le> cubic_start 4 2 \<and> cubic_start 4 2 \<le> 0"
  using stencil_containment [of 4 2] by simp

text \<open>
  For a table of exactly four points the stencil start computed by the cubic shift is
  \<open>0\<close>, for every raw bracket index in \<open>[0, 2]\<close> and so for the bracket of every query.
\<close>

lemma cubic_start_four_points:
  "(0 \<le> idx \<and> idx \<le> 2 \<longrightarrow> cubic_start 4 idx = 0) \<and>
   (length xs = 4 \<longrightarrow> cubic_start 4 (narrow_int (lower_bound_index xs x)) = 0)"
proof -
  have a: "cubic_start 4 k = 0" if "0 \<le> k" "k \<le> 2" for k
  proof -
    have "k = 0 \<or> k = 1 \<or> k = 2"
      using that by arith
    then show ?thesis
      by (auto simp: cubic_start_def eq_size_minus_def)
  qed
  have b: "cubic_start 4 (narrow_int (lower_bound_index xs x)) = 0" if "length xs = 4"
  proof -
    have r: "0 \<le> lower_bound_index xs x" "lower_bound_index xs x \<le> 2"
      using lower_bound_index_range [of xs x] that by simp_all
    then have "narrow_int (lower_bound_index xs x) = lower_bound_index xs x"
      by (intro narrow_int_id) simp_all
    then show ?thesis
      using a r by simp
  qed
  show ?thesis
    using a b by blast
qed

section \<open>The unsupported law\<close>

lemma at_v_supported: "at_v v i \<noteq> Inl (Fatal msg)"
  by (simp add: at_v_def)

lemma lagrangian_inner_supported:
  "lagrangian_inner xs idx x order i j nu de \<noteq> Inl (Fatal msg)"
proof (induction xs idx x order i j nu de rule: lagrangian_inner.induct)
  case (1 xs idx x order i j nu de)
  show ?case
    using "1.IH" at_v_supported [of xs "idx + j" msg] at_v_supported [of xs "idx + i" msg]
    by (subst lagrangian_inner.simps) (auto split: sum.splits)
qed

lemma lagrangian_coeffs_supported:
  "lagrangian_coeffs xs idx x order i cs \<noteq> Inl (Fatal msg)"
proof (induction xs idx x order i cs rule: lagrangian_coeffs.induct)
  case (1 xs idx x order i cs)
  show ?case
    using "1.IH" lagrangian_inner_supported [of xs idx x order i 0 1 1 msg]
    by (subst lagrangian_coeffs.simps) (auto split: sum.splits simp: fdiv_def)
qed

lemma inner_product_supported:
  "inner_product cs ys k acc \<noteq> Inl (Fatal msg)"
  by (induction cs ys k acc rule: inner_product.induct)
     (auto split: sum.splits simp: at_v_def)

lemma interpolate_lagrangian_supported:
  "interpolate_lagrangian xs ys idx x order \<noteq> Inl (Fatal msg)"
  using lagrangian_coeffs_supported [of xs idx x order 0 "[]" msg]
    inner_product_supported [of _ ys idx 0 msg]
  by (cases "lagrangian_coeffs xs idx x order 0 []")
     (auto simp: interpolate_lagrangian_def)

lemma bracket_supported:
  "(\<And>x0 x1 y0 y1. f x0 x1 y0 y1 \<noteq> Inl (Fatal msg)) \<Longrightarrow>
   bracket xs ys idx f \<noteq> Inl (Fatal msg)"
  by (auto simp: bracket_def at_v_def)

lemma kernels_supported:
  "interpolate_lin_lin x0 x1 y0 y1 x \<noteq> Inl (Fatal msg)"
  "interpolate_lin_log x0 x1 y0 y1 x \<noteq> Inl (Fatal msg)"
  "interpolate_log_lin x0 x1 y0 y1 x \<noteq> Inl (Fatal msg)"
  "interpolate_log_log x0 x1 y0 y1 x \<noteq> Inl (Fatal msg)"
  by (auto simp: interpolate_lin_lin_def interpolate_lin_log_def interpolate_log_lin_def
      interpolate_log_log_def fdiv_def flog_def)

text \<open>
  C7. Whatever the table and the query, \<open>interpolate\<close> ends in the unsupported-law fatal
  error, with no numeric result, when the law argument is none of the six enumerators;
  and a fatal error is raised by no defined law.
\<close>

theorem unsupported_law_iff:
  "interpolate xs ys x (other_law v) = Inl (Fatal ''Unsupported interpolation'') \<and>
   ((\<exists>msg. interpolate xs ys x law = Inl (Fatal msg)) \<longleftrightarrow> (\<exists>w. law = other_law w))"
proof
  show "interpolate xs ys x (other_law v) = Inl (Fatal ''Unsupported interpolation'')"
    by (simp add: interpolate_def fatal_error_def)
  show "(\<exists>msg. interpolate xs ys x law = Inl (Fatal msg)) \<longleftrightarrow> (\<exists>w. law = other_law w)"
  proof (cases law)
    case quadratic
    then show ?thesis
      using interpolate_lagrangian_supported
      by (cases "double_to_int x")
         (auto simp: interpolate_def Let_def double_to_int_def split: if_splits)
  next
    case cubic
    then show ?thesis
      using interpolate_lagrangian_supported
      by (cases "double_to_int x")
         (auto simp: interpolate_def Let_def double_to_int_def split: if_splits)
  qed (simp_all add: interpolate_def Let_def fatal_error_def bracket_supported kernels_supported)
qed

text \<open>A value outside the enumeration, on the table of the spec's first scenario.\<close>

theorem unsupported_law_iff_witness:
  "interpolate [1, 2] [1, 4] (3 / 2) (other_law 7) = Inl (Fatal ''Unsupported interpolation'') \<and>
   interpolate [1, 2] [1, 4] (3 / 2) lin_lin \<noteq> Inl (Fatal ''Unsupported interpolation'')"
  using unsupported_law_iff [of "[1, 2]" "[1, 4]" "3 / 2" 7 lin_lin]
  by simp

section \<open>What the evaluator computes\<close>

lemma at_v_in_range: "0 \<le> i \<Longrightarrow> i < int (length v) \<Longrightarrow> at_v v i = Inr (v ! nat i)"
  by (simp add: at_v_def)

text \<open>
  The inner loop, entered at \<open>j\<close> with the products so far: it multiplies in the factors
  of the positions \<open>j, \<dots>, order - 1\<close> other than \<open>i\<close>, all read inside the table.
\<close>

lemma lagrangian_inner_computes:
  assumes "0 \<le> idx" "0 \<le> j" "0 \<le> i" "idx + i < int (length xs)" "idx + order \<le> int (length xs)"
  shows "lagrangian_inner xs idx x order i j nu de =
           Inr (nu * (\<Prod>k\<in>{j..<order} - {i}. x - xs ! nat (idx + k)),
                de * (\<Prod>k\<in>{j..<order} - {i}. xs ! nat (idx + i) - xs ! nat (idx + k)))"
  using assms
proof (induction xs idx x order i j nu de rule: lagrangian_inner.induct)
  case (1 xs idx x order i j nu de)
  show ?case
  proof (cases "j < order")
    case False
    then show ?thesis
      by (subst lagrangian_inner.simps) simp
  next
    case True
    show ?thesis
    proof (cases "i = j")
      case eq: True
      have s: "{j..<order} - {i} = {j + 1..<order} - {i}"
        using eq by auto
      have "lagrangian_inner xs idx x order i j nu de =
              lagrangian_inner xs idx x order i (j + 1) nu de"
        using True eq by (subst lagrangian_inner.simps) simp
      also have "\<dots> = Inr (nu * (\<Prod>k\<in>{j + 1..<order} - {i}. x - xs ! nat (idx + k)),
                de * (\<Prod>k\<in>{j + 1..<order} - {i}. xs ! nat (idx + i) - xs ! nat (idx + k)))"
        using "1.IH"(1) [OF True eq] "1.prems" by simp
      finally show ?thesis
        by (simp only: s)
    next
      case ne: False
      have s: "{j..<order} - {i} = insert j ({j + 1..<order} - {i})"
        using ne True by auto
      have nj: "j \<notin> {j + 1..<order} - {i}"
        by simp
      have rj: "at_v xs (idx + j) = Inr (xs ! nat (idx + j))"
        using "1.prems" True by (intro at_v_in_range) simp_all
      have ri: "at_v xs (idx + i) = Inr (xs ! nat (idx + i))"
        using "1.prems" by (intro at_v_in_range) simp_all
      have ih: "lagrangian_inner xs idx x order i (j + 1) (nu * (x - xs ! nat (idx + j)))
                  (de * (xs ! nat (idx + i) - xs ! nat (idx + j))) =
                Inr (nu * (x - xs ! nat (idx + j)) * (\<Prod>k\<in>{j + 1..<order} - {i}. x - xs ! nat (idx + k)),
                     de * (xs ! nat (idx + i) - xs ! nat (idx + j)) *
                       (\<Prod>k\<in>{j + 1..<order} - {i}. xs ! nat (idx + i) - xs ! nat (idx + k)))"
        using "1.IH"(2) [OF True ne rj ri] "1.prems" by simp
      show ?thesis
        using True ne
        by (subst lagrangian_inner.simps) (simp add: rj ri ih s prod.insert [OF _ nj] mult.assoc)
    qed
  qed
qed

text \<open>
  The outer loop appends one quotient for each position \<open>i, \<dots>, order\<close>, as long as no
  denominator is zero.
\<close>

lemma lagrangian_coeffs_computes:
  assumes "0 \<le> idx" "0 \<le> i" "idx + order < int (length xs)"
    and "\<forall>a\<in>{i..order}. (\<Prod>k\<in>{0..<order} - {a}. xs ! nat (idx + a) - xs ! nat (idx + k)) \<noteq> 0"
  shows "lagrangian_coeffs xs idx x order i cs =
           Inr (cs @ map (\<lambda>a. (\<Prod>k\<in>{0..<order} - {a}. x - xs ! nat (idx + k)) /
                              (\<Prod>k\<in>{0..<order} - {a}. xs ! nat (idx + a) - xs ! nat (idx + k)))
                         [i..order])"
  using assms
proof (induction xs idx x order i cs rule: lagrangian_coeffs.induct)
  case (1 xs idx x order i cs)
  let ?N = "\<lambda>a. \<Prod>k\<in>{0..<order} - {a}. x - xs ! nat (idx + k)"
  let ?D = "\<lambda>a. \<Prod>k\<in>{0..<order} - {a}. xs ! nat (idx + a) - xs ! nat (idx + k)"
  show ?case
  proof (cases "i < order + 1")
    case False
    then show ?thesis
      by (subst lagrangian_coeffs.simps) simp
  next
    case True
    have inner: "lagrangian_inner xs idx x order i 0 1 1 = Inr (?N i, ?D i)"
      using lagrangian_inner_computes [of idx 0 i xs order x 1 1] "1.prems" True by simp
    have d: "?D i \<noteq> 0"
      using "1.prems"(4) True by simp
    have q: "fdiv (?N i) (?D i) = Inr (?N i / ?D i)"
      using d by (simp add: fdiv_def)
    have ih: "lagrangian_coeffs xs idx x order (i + 1) (cs @ [?N i / ?D i]) =
                Inr ((cs @ [?N i / ?D i]) @ map (\<lambda>a. ?N a / ?D a) [i + 1..order])"
      using "1.IH" [OF True inner refl q] "1.prems" by simp
    have u: "[i..order] = i # [i + 1..order]"
      using True by (simp add: upto_rec1)
    show ?thesis
      using True by (subst lagrangian_coeffs.simps) (simp add: inner q ih u)
  qed
qed

text \<open>The inner product adds \<open>cs[n] * ys[k + n]\<close> for every coefficient.\<close>

lemma inner_product_computes:
  "0 \<le> k \<Longrightarrow> k + int (length cs) \<le> int (length ys) \<Longrightarrow>
   inner_product cs ys k acc = Inr (acc + (\<Sum>n<length cs. cs ! n * ys ! nat (k + int n)))"
proof (induction cs arbitrary: k acc)
  case Nil
  then show ?case by simp
next
  case (Cons c cs)
  have r: "at_v ys k = Inr (ys ! nat k)"
    using Cons.prems by (intro at_v_in_range) simp_all
  have ih: "inner_product cs ys (k + 1) (acc + c * ys ! nat k) =
              Inr (acc + c * ys ! nat k + (\<Sum>n<length cs. cs ! n * ys ! nat (k + 1 + int n)))"
    using Cons.IH [of "k + 1" "acc + c * ys ! nat k"] Cons.prems by simp
  have "(\<Sum>n<Suc (length cs). (c # cs) ! n * ys ! nat (k + int n)) =
          c * ys ! nat k + (\<Sum>n<length cs. cs ! n * ys ! nat (k + 1 + int n))"
    by (subst sum.lessThan_Suc_shift) (simp add: ac_simps)
  then show ?case
    by (simp add: r ih del: sum.lessThan_Suc)
qed

lemma int_window_image: "{0..<int m} - {int n} = int ` ({0..<m} - {n})"
proof -
  have "{0..<int m} = int ` {0..<m}"
    by (simp add: image_int_atLeastLessThan)
  then show ?thesis
    by (simp add: image_set_diff)
qed

lemma prod_int_window:
  "(\<Prod>k\<in>{0..<int m} - {int n}. f (nat (int idx + k))) = (\<Prod>j\<in>{0..<m} - {n}. f (idx + j))"
proof -
  have "(\<Prod>k\<in>int ` ({0..<m} - {n}). f (nat (int idx + k))) =
          (\<Prod>j\<in>{0..<m} - {n}. f (nat (int idx + int j)))"
    by (subst prod.reindex) (simp_all add: o_def)
  also have "\<dots> = (\<Prod>j\<in>{0..<m} - {n}. f (idx + j))"
    by (simp add: nat_int_add)
  finally show ?thesis
    by (simp only: int_window_image)
qed

text \<open>
  On a window \<open>idx, \<dots>, idx + order\<close> inside both vectors, with grid values that differ
  wherever the loops subtract them, the evaluator returns the sum over the \<open>order + 1\<close>
  window positions \<open>i\<close> of \<open>ys[idx+i]\<close> times the product over \<open>j < order\<close>, \<open>j \<noteq> i\<close> of
  \<open>(x - xs[idx+j]) / (xs[idx+i] - xs[idx+j])\<close>. The formula of the spec, in the same
  form, has the product over \<open>j \<le> order\<close>.
\<close>

lemma interpolate_lagrangian_computes:
  fixes idx order :: nat
  assumes "idx + order < length xs" "idx + order < length ys"
    and "\<forall>i\<le>order. \<forall>j<order. i \<noteq> j \<longrightarrow> xs ! (idx + i) \<noteq> xs ! (idx + j)"
  shows "interpolate_lagrangian xs ys (int idx) x (int order) =
           Inr (\<Sum>i = 0..order.
                  (\<Prod>j\<in>{0..<order} - {i}. (x - xs ! (idx + j)) / (xs ! (idx + i) - xs ! (idx + j))) *
                  ys ! (idx + i))"
proof -
  let ?N = "\<lambda>a. \<Prod>k\<in>{0..<int order} - {a}. x - xs ! nat (int idx + k)"
  let ?D = "\<lambda>a. \<Prod>k\<in>{0..<int order} - {a}. xs ! nat (int idx + a) - xs ! nat (int idx + k)"
  let ?C = "\<lambda>i. \<Prod>j\<in>{0..<order} - {i}. (x - xs ! (idx + j)) / (xs ! (idx + i) - xs ! (idx + j))"
  have N: "?N (int n) = (\<Prod>j\<in>{0..<order} - {n}. x - xs ! (idx + j))" for n
    by (rule prod_int_window [where m = order and n = n and f = "\<lambda>p. x - xs ! p" and idx = idx])
  have D: "?D (int n) = (\<Prod>j\<in>{0..<order} - {n}. xs ! (idx + n) - xs ! (idx + j))" for n
    using prod_int_window [where m = order and n = n and f = "\<lambda>p. xs ! (idx + n) - xs ! p" and idx = idx]
    by (simp add: nat_int_add)
  have C: "?N (int n) / ?D (int n) = ?C n" for n
    unfolding N D by (simp add: prod_dividef)
  have nz: "\<forall>a\<in>{0..int order}. ?D a \<noteq> 0"
  proof
    fix a assume a: "a \<in> {0..int order}"
    then obtain n where n: "a = int n" "n \<le> order"
      by (metis atLeastAtMost_iff nat_le_iff nat_0_le)
    have "(\<Prod>j\<in>{0..<order} - {n}. xs ! (idx + n) - xs ! (idx + j)) \<noteq> 0"
      using assms(3) n(2) by simp
    then show "?D a \<noteq> 0"
      unfolding n(1) D .
  qed
  have cs: "lagrangian_coeffs xs (int idx) x (int order) 0 [] =
              Inr (map (\<lambda>a. ?N a / ?D a) [0..int order])"
    using lagrangian_coeffs_computes [of "int idx" 0 "int order" xs x "[]"] assms(1) nz
    by simp
  have len: "length (map (\<lambda>a. ?N a / ?D a) [0..int order]) = Suc order"
    by simp
  have el: "map (\<lambda>a. ?N a / ?D a) [0..int order] ! n = ?C n" if "n \<le> order" for n
  proof -
    have "[0..int order] ! n = int n"
      using that nth_upto [of 0 n "int order"] by simp
    then show ?thesis
      using that C by simp
  qed
  have "inner_product (map (\<lambda>a. ?N a / ?D a) [0..int order]) ys (int idx) 0 =
          Inr (0 + (\<Sum>n<Suc order. map (\<lambda>a. ?N a / ?D a) [0..int order] ! n * ys ! nat (int idx + int n)))"
    using inner_product_computes [of "int idx" "map (\<lambda>a. ?N a / ?D a) [0..int order]" ys 0]
      assms(2) unfolding len by simp
  also have "(\<Sum>n<Suc order. map (\<lambda>a. ?N a / ?D a) [0..int order] ! n * ys ! nat (int idx + int n)) =
          (\<Sum>n<Suc order. ?C n * ys ! (idx + n))"
  proof (rule sum.cong [OF refl])
    fix n assume "n \<in> {..<Suc order}"
    then have n: "n \<le> order"
      by simp
    show "map (\<lambda>a. ?N a / ?D a) [0..int order] ! n * ys ! nat (int idx + int n) =
            ?C n * ys ! (idx + n)"
      unfolding el [OF n] nat_int_add ..
  qed
  also have "\<dots> = (\<Sum>i = 0..order. ?C i * ys ! (idx + i))"
    by (simp only: lessThan_Suc_atMost atMost_atLeast0)
  finally have ip: "inner_product (map (\<lambda>a. ?N a / ?D a) [0..int order]) ys (int idx) 0 =
          Inr (\<Sum>i = 0..order. ?C i * ys ! (idx + i))"
    by simp
  show ?thesis
    using assms(2) by (simp add: interpolate_lagrangian_def cs ip)
qed

lemma spec_lagrangian_sum:
  "spec_lagrangian xs ys idx x order =
     (\<Sum>i = 0..order.
        (\<Prod>j\<in>{0..order} - {i}. (x - xs ! (idx + j)) / (xs ! (idx + i) - xs ! (idx + j))) *
        ys ! (idx + i))"
proof -
  have f: "set (filter (\<lambda>j. j \<noteq> i) [0..<order + 1]) = {0..order} - {i}" for i
    by auto
  have p: "spec_basis_coefficient xs idx x order i =
      (\<Prod>j\<in>{0..order} - {i}. (x - xs ! (idx + j)) / (xs ! (idx + i) - xs ! (idx + j)))" for i
    unfolding spec_basis_coefficient_def
    by (subst prod.distinct_set_conv_list [symmetric]) (simp_all only: f distinct_filter distinct_upt)
  have "set [0..<order + 1] = {0..order}"
    by auto
  then show ?thesis
    unfolding spec_lagrangian_def p
    by (subst sum.distinct_set_conv_list [symmetric]) simp_all
qed

section \<open>The call of the Lagrangian evaluator\<close>

lemma window_distinct:
  "sorted_wrt (<) xs \<Longrightarrow> t + m < length xs \<Longrightarrow>
   \<forall>i\<le>m. \<forall>j<m. i \<noteq> j \<longrightarrow> xs ! (t + i) \<noteq> (xs ! (t + j) :: real)"
proof (intro allI impI)
  fix i j assume s: "sorted_wrt (<) xs" and b: "t + m < length xs"
    and i: "i \<le> m" and j: "j < m" and ne: "i \<noteq> j"
  have "xs ! (t + i) < xs ! (t + j)" if "i < j"
    using s that b j by (simp add: sorted_wrt_iff_nth_less)
  moreover have "xs ! (t + j) < xs ! (t + i)" if "j < i"
    using s that b i by (simp add: sorted_wrt_iff_nth_less)
  ultimately show "xs ! (t + i) \<noteq> xs ! (t + j)"
    using ne by (cases "i < j") auto
qed

lemma small_ranges:
  "{0..2::nat} = {0, 1, 2}" "{0..3::nat} = {0, 1, 2, 3}"
  "{0..<2::nat} = {0, 1}" "{0..<3::nat} = {0, 1, 2}"
  by auto

text \<open>
  C3. \<open>interpolate_lagrangian\<close> takes the stencil index before the query value; the
  Quadratic and Cubic branches of \<open>interpolate\<close> pass the query value in the index
  position and the shifted index in the query position. So in a quadratic or cubic
  evaluation the stencil start actually used is the truncated query value \<open>t\<close>, and the
  point evaluated at is the computed stencil index: on a strictly increasing table that
  holds the window \<open>t, \<dots>, t + order\<close>, the result is built from \<open>xs[t+j]\<close> and
  \<open>ys[t+i]\<close>, with the shifted bracket index, converted to \<open>double\<close>, where the formula
  has the query.
\<close>

theorem lagrangian_call_swaps_index_and_query:
  assumes "sorted_wrt (<) xs" "0 \<le> trunc_to_zero x" "trunc_to_zero x < 2 ^ 31"
    and "t = nat (trunc_to_zero x)"
  shows "(t + 2 < length xs \<and> t + 2 < length ys \<longrightarrow>
           interpolate xs ys x quadratic =
             Inr (\<Sum>i = 0..2.
                    (\<Prod>j\<in>{0..<2} - {i}.
                       (of_int (quadratic_start (length xs) (narrow_int (lower_bound_index xs x)))
                          - xs ! (t + j)) / (xs ! (t + i) - xs ! (t + j))) *
                    ys ! (t + i))) \<and>
         (t + 3 < length xs \<and> t + 3 < length ys \<longrightarrow>
           interpolate xs ys x cubic =
             Inr (\<Sum>i = 0..3.
                    (\<Prod>j\<in>{0..<3} - {i}.
                       (of_int (cubic_start (length xs) (narrow_int (lower_bound_index xs x)))
                          - xs ! (t + j)) / (xs ! (t + i) - xs ! (t + j))) *
                    ys ! (t + i)))"
proof -
  have d: "double_to_int x = Inr (int t)"
    using assms(2,3,4) by (simp add: double_to_int_def Let_def)
  show ?thesis
  proof (intro conjI impI)
    assume b: "t + 2 < length xs \<and> t + 2 < length ys"
    show "interpolate xs ys x quadratic =
             Inr (\<Sum>i = 0..2.
                    (\<Prod>j\<in>{0..<2} - {i}.
                       (of_int (quadratic_start (length xs) (narrow_int (lower_bound_index xs x)))
                          - xs ! (t + j)) / (xs ! (t + i) - xs ! (t + j))) *
                    ys ! (t + i))"
      using interpolate_lagrangian_computes [of t 2 xs ys, OF _ _ window_distinct [OF assms(1)]] b
      by (simp add: interpolate_def d)
  next
    assume b: "t + 3 < length xs \<and> t + 3 < length ys"
    show "interpolate xs ys x cubic =
             Inr (\<Sum>i = 0..3.
                    (\<Prod>j\<in>{0..<3} - {i}.
                       (of_int (cubic_start (length xs) (narrow_int (lower_bound_index xs x)))
                          - xs ! (t + j)) / (xs ! (t + i) - xs ! (t + j))) *
                    ys ! (t + i))"
      using interpolate_lagrangian_computes [of t 3 xs ys, OF _ _ window_distinct [OF assms(1)]] b
      by (simp add: interpolate_def d)
  qed
qed

text \<open>
  On \<open>xs = [0, 1/2, 1, 3/2, 2, 5/2]\<close>, \<open>ys = [1, 2, 4, 8, 16, 32]\<close> the query \<open>3/4\<close> is
  truncated to the stencil start \<open>0\<close>; the window \<open>0..2\<close> is evaluated at the bracket
  index \<open>1\<close> (Quadratic) and the window \<open>0..3\<close> at the shifted index \<open>0\<close> (Cubic).
\<close>

theorem lagrangian_call_swaps_index_and_query_witness:
  "interpolate [0, 1 / 2, 1, 3 / 2, 2, 5 / 2] [1, 2, 4, 8, 16, 32] (3 / 4) quadratic = Inr 7 \<and>
   interpolate [0, 1 / 2, 1, 3 / 2, 2, 5 / 2] [1, 2, 4, 8, 16, 32] (3 / 4) cubic = Inr 1"
  using lagrangian_call_swaps_index_and_query
    [of "[0, 1 / 2, 1, 3 / 2, 2, 5 / 2]" "3 / 4" 0 "[1, 2, 4, 8, 16, 32]"]
  by (simp add: trunc_to_zero_def narrow_int_def quadratic_start_def cubic_start_def
      eq_size_minus_def small_ranges insert_Diff_if)

section \<open>Where the higher-order laws leave the spec\<close>

text \<open>
  C2. The spec has each basis coefficient as the product over all \<open>j\<close> in \<open>0..order\<close>
  with \<open>j \<noteq> i\<close>. The inner loop of the source stops at \<open>j < order\<close>, so the factor of the
  last window point is missing from every coefficient but the last
  (\<open>interpolate_lagrangian_computes\<close> against \<open>spec_lagrangian_sum\<close>). On the window
  \<open>xs = [0, 1, 2]\<close>, \<open>ys = [0, 1, 4]\<close> (\<open>y = x\<^sup>2\<close>), \<open>idx = 0\<close>, \<open>order = 2\<close> and the query
  \<open>1/2\<close> the source returns \<open>0\<close>; the formula of the spec gives \<open>1/4\<close>.
\<close>

theorem lagrangian_inner_loop_stops_short:
  "interpolate_lagrangian [0, 1, 2] [0, 1, 4] 0 (1 / 2) 2 = Inr 0 \<and>
   spec_lagrangian [0, 1, 2] [0, 1, 4] 0 (1 / 2) 2 = 1 / 4"
  by (simp add: run_simps spec_lagrangian_def spec_basis_coefficient_def upt_rec)

text \<open>
  C1. The table \<open>xs = [0, 1/4, 1/2, 3/4, 1]\<close>, \<open>ys = [0, 1/16, 1/4, 9/16, 1]\<close> samples
  \<open>f(x) = x\<^sup>2\<close>, a polynomial of degree 2, on five points. For the query \<open>9/10\<close>, in
  the last interval, polynomial exactness asks for \<open>f(9/10) = 81/100\<close> under both
  laws. The source returns \<open>15/2\<close> for Quadratic and \<open>13/4\<close> for Cubic: the query is
  truncated to the stencil start \<open>0\<close>, the polynomial is evaluated at the shifted index
  (\<open>2\<close> and \<open>1\<close>), and the coefficients lack a factor.
\<close>

theorem polynomial_exactness_fails:
  "interpolate [0, 1 / 4, 1 / 2, 3 / 4, 1] [0, 1 / 16, 1 / 4, 9 / 16, 1] (9 / 10) quadratic =
     Inr (15 / 2) \<and>
   interpolate [0, 1 / 4, 1 / 2, 3 / 4, 1] [0, 1 / 16, 1 / 4, 9 / 16, 1] (9 / 10) cubic =
     Inr (13 / 4)"
  by (simp add: run_simps)

text \<open>
  Endpoint exactness of the four pointwise laws: at a grid point \<open>xs[k]\<close> that starts an
  interval of a strictly increasing table (fewer than \<open>2^31\<close> points, so that the bracket
  index fits the \<open>int\<close> it is stored in), each law returns \<open>ys[k]\<close> under its positivity
  precondition.
\<close>

lemma bracket_at_grid:
  assumes "sorted_wrt (<) xs" "length ys = length xs" "k + 1 < length xs" "length xs < 2 ^ 31"
  shows "narrow_int (lower_bound_index xs (xs ! k)) = int k"
    and "bracket xs ys (int k) f = f (xs ! k) (xs ! (k + 1)) (ys ! k) (ys ! (k + 1))"
    and "xs ! k < xs ! (k + 1)"
proof -
  have "int k < 2 ^ 31"
    using assms(3,4) by (metis add_lessD1 less_trans of_nat_less_numeral_power_cancel_iff)
  then show "narrow_int (lower_bound_index xs (xs ! k)) = int k"
    using lower_bound_index_grid [OF assms(1,3) refl] by (simp add: narrow_int_id)
  have "nat (int k + 1) = k + 1"
    by simp
  then show "bracket xs ys (int k) f = f (xs ! k) (xs ! (k + 1)) (ys ! k) (ys ! (k + 1))"
    using assms(2,3) by (simp add: bracket_def at_v_def)
  show "xs ! k < xs ! (k + 1)"
    using assms(1,3) by (simp add: sorted_wrt_iff_nth_less)
qed

lemma pointwise_endpoint_exact:
  assumes "sorted_wrt (<) xs" "length ys = length xs" "k + 1 < length xs" "length xs < 2 ^ 31"
  shows "interpolate xs ys (xs ! k) lin_lin = Inr (ys ! k)"
    and "0 < xs ! k \<Longrightarrow> interpolate xs ys (xs ! k) lin_log = Inr (ys ! k)"
    and "0 < ys ! k \<Longrightarrow> 0 < ys ! (k + 1) \<Longrightarrow> interpolate xs ys (xs ! k) log_lin = Inr (ys ! k)"
    and "0 < xs ! k \<Longrightarrow> 0 < ys ! k \<Longrightarrow> 0 < ys ! (k + 1) \<Longrightarrow>
         interpolate xs ys (xs ! k) log_log = Inr (ys ! k)"
proof -
  note g = bracket_at_grid [OF assms]
  show "interpolate xs ys (xs ! k) lin_lin = Inr (ys ! k)"
    using g(3) by (simp add: interpolate_def g(1,2) interpolate_lin_lin_def fdiv_def)
  show "interpolate xs ys (xs ! k) lin_log = Inr (ys ! k)" if "0 < xs ! k"
  proof -
    have "0 < xs ! (k + 1)" "xs ! (k + 1) / xs ! k \<noteq> 1"
      using that g(3) by simp_all
    then have "0 < xs ! (k + 1) / xs ! k" "ln (xs ! (k + 1) / xs ! k) \<noteq> 0"
      using that by simp_all
    then show ?thesis
      using that by (simp add: interpolate_def g(1,2) interpolate_lin_log_def fdiv_def flog_def
          not_le [symmetric])
  qed
  show "interpolate xs ys (xs ! k) log_lin = Inr (ys ! k)" if "0 < ys ! k" "0 < ys ! (k + 1)"
  proof -
    have "0 < ys ! (k + 1) / ys ! k"
      using that by simp
    then show ?thesis
      using that g(3) by (simp add: interpolate_def g(1,2) interpolate_log_lin_def fdiv_def
          flog_def not_le [symmetric])
  qed
  show "interpolate xs ys (xs ! k) log_log = Inr (ys ! k)"
    if "0 < xs ! k" "0 < ys ! k" "0 < ys ! (k + 1)"
  proof -
    have "0 < xs ! (k + 1)" "xs ! (k + 1) / xs ! k \<noteq> 1"
      using that g(3) by simp_all
    then have "0 < xs ! (k + 1) / xs ! k" "ln (xs ! (k + 1) / xs ! k) \<noteq> 0"
      "0 < ys ! (k + 1) / ys ! k"
      using that by simp_all
    then show ?thesis
      using that by (simp add: interpolate_def g(1,2) interpolate_log_log_def fdiv_def flog_def
          not_le [symmetric])
  qed
qed

text \<open>
  C5. On \<open>xs = [0, 1/2, 1, 3/2, 2, 5/2]\<close>, \<open>ys = [1, 2, 4, 8, 16, 32]\<close> the query
  \<open>xs[1] = 1/2\<close> is an interior grid point whose bracket is \<open>idx = 1\<close>; endpoint
  exactness asks for \<open>ys[1] = 2\<close>. The Quadratic law returns \<open>7\<close>, where the pointwise
  laws return \<open>2\<close> (\<open>pointwise_endpoint_exact\<close>).
\<close>

theorem endpoint_exactness_fails_quadratic:
  "interpolate [0, 1 / 2, 1, 3 / 2, 2, 5 / 2] [1, 2, 4, 8, 16, 32] (1 / 2) quadratic = Inr 7"
  by (simp add: run_simps)

text \<open>
  C6. On \<open>xs = [1, 2, 3, 4]\<close>, \<open>ys = [1, 4, 9, 16]\<close>, Quadratic, \<open>x = 3.5\<close> the dispatcher
  does shift the bracket index \<open>2\<close> to the stencil start \<open>1\<close>. The call then hands \<open>3.5\<close>
  to the evaluator as its index, truncated to \<open>3\<close>, and the first coefficient reads
  \<open>xs[4]\<close>, past the end of the table: the run has no defined result, where the spec
  expects \<open>12.25\<close>.
\<close>

theorem last_interval_scenario_out_of_bounds:
  "quadratic_start 4 (narrow_int (lower_bound_index [1, 2, 3, 4] (7 / 2))) = 1 \<and>
   interpolate [1, 2, 3, 4] [1, 4, 9, 16] (7 / 2) quadratic = Inl OutOfBounds"
  by (simp add: run_simps)

text \<open>
  C10. On a table of four points the stencil start computed by the cubic shift is \<open>0\<close>
  for every query (\<open>cubic_start_four_points\<close>), so the four-point stencil should be the
  whole table and the cubic fit the same whichever interval holds the query. The call
  does not use that index as the stencil start. On \<open>xs = [0, 1/2, 1, 3/2]\<close>,
  \<open>ys = [5, 1, 2, 3]\<close> the computed start is \<open>0\<close> for the queries \<open>1/4\<close> (first interval)
  and \<open>5/4\<close> (last interval) alike; the first is evaluated on the window starting at
  \<open>0\<close> and returns \<open>5\<close>, the second on the window starting at \<open>1\<close>, which reads \<open>xs[4]\<close>
  past the end of the table.
\<close>

theorem cubic_fit_depends_on_query_interval:
  "cubic_start 4 (narrow_int (lower_bound_index [0, 1 / 2, 1, 3 / 2] (1 / 4))) = 0 \<and>
   cubic_start 4 (narrow_int (lower_bound_index [0, 1 / 2, 1, 3 / 2] (5 / 4))) = 0 \<and>
   interpolate [0, 1 / 2, 1, 3 / 2] [5, 1, 2, 3] (1 / 4) cubic = Inr 5 \<and>
   interpolate [0, 1 / 2, 1, 3 / 2] [5, 1, 2, 3] (5 / 4) cubic = Inl OutOfBounds"
  by (simp add: run_simps)

end
